theory Spec2Isabelle
  imports Main
begin

section \<open>The tab session store of \<open>MultiTabPreviewPanel\<close>\<close>

text \<open>
  The class \<open>MultiTabPreviewPanel\<close> (src/src/multiTabPreviewPanel.ts) keeps three mutable
  fields: the array \<open>_tabs\<close>, the string \<open>_activeTabId\<close> and the number
  \<open>_tabCounter\<close>. Its methods are modelled as functions from store to store. The
  method \<open>_update\<close> only renders the store into the webview and changes none of the
  three fields, so it does not appear in the store functions.

  The counter is a JavaScript number that is only ever incremented by one from zero; it is
  modelled as a natural number (exact below \<open>2 ^ 53\<close>).
\<close>

record PreviewTab =
  tab_id :: string
  title :: string
  uri :: "string option"
  content :: string

record store =
  tabs :: "PreviewTab list"
  activeTabId :: string
  tabCounter :: nat

text \<open>
  What the methods read from the host: \<open>vscode.window.activeTextEditor\<close> (absent, or a
  document with its language id, uri, file name and text) and \<open>path.basename\<close>, which is
  library code taken as a parameter.
\<close>

record document =
  languageId :: string
  docUri :: string
  fileName :: string
  getText :: string

record host =
  activeTextEditor :: "document option"
  basename :: "string \<Rightarrow> string"

subsection \<open>Template literals: decimal rendering of the counter\<close>

definition digit_char :: "nat \<Rightarrow> char" where
  "digit_char d = ''0123456789'' ! d"

fun show_nat :: "nat \<Rightarrow> string" where
  "show_nat n = (if n < 10 then [digit_char n] else show_nat (n div 10) @ [digit_char (n mod 10)])"

declare show_nat.simps [simp del]

subsection \<open>Array primitives\<close>

fun findIndex :: "('a \<Rightarrow> bool) \<Rightarrow> 'a list \<Rightarrow> nat option" where
  "findIndex P [] = None"
| "findIndex P (x # xs) = (if P x then Some 0 else map_option Suc (findIndex P xs))"

definition splice1 :: "nat \<Rightarrow> 'a list \<Rightarrow> 'a list" where
  \<comment> \<open>\<open>xs.splice(index, 1)\<close>\<close>
  "splice1 index xs = take index xs @ drop (Suc index) xs"

subsection \<open>The methods\<close>

definition updateActiveTabFromEditor :: "host \<Rightarrow> store \<Rightarrow> store" where
  "updateActiveTabFromEditor h s =
     (case activeTextEditor h of
        None \<Rightarrow> s
      | Some editor \<Rightarrow>
          if languageId editor \<noteq> ''html'' then s
          else (case findIndex (\<lambda>t. tab_id t = activeTabId s) (tabs s) of
                  None \<Rightarrow> s
                | Some i \<Rightarrow>
                    s\<lparr>tabs := (tabs s)[i := (tabs s ! i)
                          \<lparr>title := basename h (fileName editor),
                           uri := Some (docUri editor),
                           content := getText editor\<rparr>]\<rparr>))"

definition newTab :: "nat \<Rightarrow> PreviewTab" where
  "newTab n = \<lparr>tab_id = ''tab-'' @ show_nat n, title = ''Tab '' @ show_nat n,
               uri = None, content = ''''\<rparr>"

definition addNewTab :: "host \<Rightarrow> store \<Rightarrow> store" where
  "addNewTab h s =
     (let c = tabCounter s + 1
      in updateActiveTabFromEditor h
           (s\<lparr>tabCounter := c, tabs := tabs s @ [newTab c], activeTabId := tab_id (newTab c)\<rparr>))"

definition switchTab :: "string \<Rightarrow> store \<Rightarrow> store" where
  "switchTab tabId s = s\<lparr>activeTabId := tabId\<rparr>"

definition closeTab :: "host \<Rightarrow> string \<Rightarrow> store \<Rightarrow> store" where
  "closeTab h tabId s =
     (case findIndex (\<lambda>t. tab_id t = tabId) (tabs s) of
        None \<Rightarrow> s
      | Some index \<Rightarrow>
          (let s1 = s\<lparr>tabs := splice1 index (tabs s)\<rparr>
           in if activeTabId s1 = tabId
              then (if length (tabs s1) > 0
                    then s1\<lparr>activeTabId := tab_id (tabs s1 ! nat (max 0 (int index - 1)))\<rparr>
                    else addNewTab h s1)
              else s1))"

definition emptyStore :: store where
  "emptyStore = \<lparr>tabs = [], activeTabId = '''', tabCounter = 0\<rparr>"

definition initStore :: "host \<Rightarrow> store" where
  \<comment> \<open>the constructor: field initialisers, then \<open>this._addNewTab()\<close>\<close>
  "initStore h = addNewTab h emptyStore"

text \<open>
  The operations that reach the store: the webview messages \<open>addTab\<close>, \<open>switchTab\<close> and
  \<open>closeTab\<close>, and a synchronisation from the editor (\<open>refresh\<close>, an editor switch, a
  debounce expiry, the end of \<open>selectFile\<close>), each with the host state of its moment.
\<close>

datatype operation = CreateTab | SwitchTab string | CloseTab string | BindAndUpdate

fun step :: "host \<Rightarrow> operation \<Rightarrow> store \<Rightarrow> store" where
  "step h CreateTab s = addNewTab h s"
| "step h (SwitchTab i) s = switchTab i s"
| "step h (CloseTab i) s = closeTab h i s"
| "step h BindAndUpdate s = updateActiveTabFromEditor h s"

fun run :: "(host \<times> operation) list \<Rightarrow> store \<Rightarrow> store" where
  "run [] s = s"
| "run ((h, operation) # rest) s = run rest (step h operation s)"

definition tab_ids :: "store \<Rightarrow> string list" where
  "tab_ids s = map tab_id (tabs s)"

subsection \<open>Notions used to state the store properties\<close>

text \<open>
  The tab that \<open>_addNewTab\<close> leaves at the end of the list: the fresh object, which
  \<open>_updateActiveTabFromEditor\<close> has already filled from the editor when an HTML document
  is focused there.
\<close>

definition freshTab :: "host \<Rightarrow> nat \<Rightarrow> PreviewTab" where
  "freshTab h n =
     (case activeTextEditor h of
        None \<Rightarrow> newTab n
      | Some editor \<Rightarrow>
          if languageId editor = ''html''
          then \<lparr>tab_id = tab_id (newTab n), title = basename h (fileName editor),
                uri = Some (docUri editor), content = getText editor\<rparr>
          else newTab n)"

definition unbound :: "PreviewTab \<Rightarrow> bool" where
  "unbound t = (uri t = None \<and> content t = '''')"

text \<open>
  The ids handed out by a run: an operation has created a tab exactly when it has moved
  the counter, and the tab it created is then the last of the list.
\<close>

definition created_by :: "host \<Rightarrow> operation \<Rightarrow> store \<Rightarrow> string list" where
  "created_by h operation s =
     (let s' = step h operation s
      in if tabCounter s' = tabCounter s then [] else [tab_id (last (tabs s'))])"

fun created_ids :: "(host \<times> operation) list \<Rightarrow> store \<Rightarrow> string list" where
  "created_ids [] s = []"
| "created_ids ((h, operation) # rest) s =
     created_by h operation s @ created_ids rest (step h operation s)"

definition lifetime_ids :: "host \<Rightarrow> (host \<times> operation) list \<Rightarrow> string list" where
  \<comment> \<open>the constructor's tab, then the tabs of the operations\<close>
  "lifetime_ids h0 ops = created_by h0 CreateTab emptyStore @ created_ids ops (initStore h0)"

definition numbered :: "store \<Rightarrow> bool" where
  "numbered s =
     (distinct (tab_ids s) \<and>
      (\<forall>i \<in> set (tab_ids s). \<exists>k \<in> {1 .. tabCounter s}. i = tab_id (newTab k)))"

definition wellFormed :: "store \<Rightarrow> bool" where
  "wellFormed s = (tabs s \<noteq> [] \<and> activeTabId s \<in> set (tab_ids s) \<and> numbered s)"

fun targetsExist :: "(host \<times> operation) list \<Rightarrow> store \<Rightarrow> bool" where
  "targetsExist [] s = True"
| "targetsExist ((h, SwitchTab i) # rest) s =
     (i \<in> set (tab_ids s) \<and> targetsExist rest (step h (SwitchTab i) s))"
| "targetsExist ((h, CreateTab) # rest) s = targetsExist rest (step h CreateTab s)"
| "targetsExist ((h, CloseTab i) # rest) s = targetsExist rest (step h (CloseTab i) s)"
| "targetsExist ((h, BindAndUpdate) # rest) s = targetsExist rest (step h BindAndUpdate s)"

subsection \<open>Example hosts and stores\<close>

definition quietHost :: host where
  \<comment> \<open>no editor is focused\<close>
  "quietHost = \<lparr>activeTextEditor = None, basename = (\<lambda>p. p)\<rparr>"

definition htmlHost :: host where
  \<comment> \<open>an HTML document is focused in the editor\<close>
  "htmlHost =
     \<lparr>activeTextEditor = Some \<lparr>languageId = ''html'', docUri = ''file:///w/index.html'',
                                 fileName = ''/w/index.html'', getText = ''<p>hi</p>''\<rparr>,
      basename = (\<lambda>p. ''index.html'')\<rparr>"

definition threeTabs :: store where
  "threeTabs =
     \<lparr>tabs = [newTab 1, newTab 2, newTab 3], activeTabId = ''tab-2'', tabCounter = 3\<rparr>"

definition htmlFocused :: "host \<Rightarrow> bool" where
  "htmlFocused h =
     (case activeTextEditor h of None \<Rightarrow> False | Some editor \<Rightarrow> languageId editor = ''html'')"

section \<open>The panel: listeners and the debounce timer\<close>

text \<open>
  The constructor registers three listeners with \<open>this._disposables\<close> (document changes,
  editor switches, webview messages) and keeps the handle of the debounce timer in its
  local variable \<open>timeout\<close>. The host side of \<open>setTimeout\<close> and \<open>clearTimeout\<close> is the
  list of timers that are armed and have neither fired nor been cleared. The quiet
  period of 300 ms is not measured: a timer that is pending may expire at any later
  event. \<open>dispose\<close> disposes the panel and pops and disposes every entry of
  \<open>_disposables\<close>.
\<close>

record panel =
  pstore :: store
  listening :: bool
  timeout :: "nat option"
  pending :: "nat list"
  nextTimer :: nat

datatype event =
    TextDocumentChanged bool
  | ActiveEditorChanged
  | Message operation
  | TimerExpired nat
  | Dispose

definition newPanel :: "host \<Rightarrow> panel" where
  "newPanel h =
     \<lparr>pstore = initStore h, listening = True, timeout = None, pending = [], nextTimer = 0\<rparr>"

definition clearTimeout :: "nat \<Rightarrow> panel \<Rightarrow> panel" where
  "clearTimeout t p = p\<lparr>pending := removeAll t (pending p)\<rparr>"

definition setTimeout :: "panel \<Rightarrow> panel" where
  \<comment> \<open>\<open>timeout = setTimeout(() => this._updateActiveTabFromEditor(), 300)\<close>\<close>
  "setTimeout p =
     p\<lparr>timeout := Some (nextTimer p), pending := pending p @ [nextTimer p],
       nextTimer := Suc (nextTimer p)\<rparr>"

definition onDidChangeTextDocument :: "bool \<Rightarrow> panel \<Rightarrow> panel" where
  \<comment> \<open>the flag: \<open>e.document === vscode.window.activeTextEditor?.document\<close>\<close>
  "onDidChangeTextDocument isActiveDocument p =
     (if isActiveDocument
      then setTimeout (case timeout p of Some t \<Rightarrow> clearTimeout t p | None \<Rightarrow> p)
      else p)"

definition dispose :: "panel \<Rightarrow> panel" where
  "dispose p = p\<lparr>listening := False\<rparr>"

fun deliver :: "host \<Rightarrow> event \<Rightarrow> panel \<Rightarrow> panel" where
  "deliver h (TextDocumentChanged isActiveDocument) p =
     (if listening p then onDidChangeTextDocument isActiveDocument p else p)"
| "deliver h ActiveEditorChanged p =
     (if listening p then p\<lparr>pstore := updateActiveTabFromEditor h (pstore p)\<rparr> else p)"
| "deliver h (Message operation) p =
     (if listening p then p\<lparr>pstore := step h operation (pstore p)\<rparr> else p)"
| "deliver h (TimerExpired t) p =
     (if t \<in> set (pending p)
      then p\<lparr>pending := removeAll t (pending p),
             pstore := updateActiveTabFromEditor h (pstore p)\<rparr>
      else p)"
| "deliver h Dispose p = dispose p"

fun deliverAll :: "(host \<times> event) list \<Rightarrow> panel \<Rightarrow> panel" where
  "deliverAll [] p = p"
| "deliverAll ((h, e) # rest) p = deliverAll rest (deliver h e p)"

section \<open>The resource resolver \<open>_convertResourcePaths\<close>\<close>

text \<open>
  The resolver is three \<open>String.prototype.replace\<close> calls with global, case-insensitive
  regular expressions and a callback each. The expressions are modelled by a
  backtracking matcher for the constructs they use, with the priorities of the
  ECMAScript semantics: a greedy quantifier tries the longer match first, a lazy one
  the shorter, and an alternative that makes the rest of the pattern fail is given up
  for the next one. Strings are lists of 8-bit characters; on them \<open>\s\<close> is tab, line
  feed, vertical tab, form feed, carriage return, space and no-break space, \<open>.\<close> is
  every character but line feed and carriage return, and the \<open>i\<close> flag identifies the
  ASCII letters of the patterns with their other case.
\<close>

datatype cclass = Space | NotGt | Dot | Quote

fun in_class :: "cclass \<Rightarrow> char \<Rightarrow> bool" where
  "in_class Space c =
     (c \<in> set [CHR 0x09, CHR 0x0A, CHR 0x0B, CHR 0x0C, CHR 0x0D, CHR 0x20, CHR 0xA0])"
| "in_class NotGt c = (c \<noteq> CHR ''>'')"
| "in_class Dot c = (c \<noteq> CHR 0x0A \<and> c \<noteq> CHR 0x0D)"
| "in_class Quote c = (c = CHR 0x22 \<or> c = CHR 0x27)"

definition canonicalize :: "char \<Rightarrow> char" where
  "canonicalize c =
     (case map_of (zip ''abcdefghijklmnopqrstuvwxyz'' ''ABCDEFGHIJKLMNOPQRSTUVWXYZ'') c of
        Some u \<Rightarrow> u
      | None \<Rightarrow> c)"

datatype node =
    Lit char
  | One cclass
  | PlusGreedy cclass
  | StarGreedy cclass
  | StarLazy cclass
  | GroupOpen nat
  | GroupClose nat
  | NotAhead "string list"

fun ci_prefix :: "string \<Rightarrow> string \<Rightarrow> bool" where
  "ci_prefix [] s = True"
| "ci_prefix (a # w) [] = False"
| "ci_prefix (a # w) (d # s) = (canonicalize d = canonicalize a \<and> ci_prefix w s)"

type_synonym captures = "(nat \<times> nat) list"

text \<open>
  \<open>rmatch r s pos caps\<close> matches the pattern \<open>r\<close> at the start of \<open>s\<close>; \<open>pos\<close> counts
  the characters consumed since the start of the match and \<open>caps\<close> holds the start and
  end of each capture group. The result is the length of the match and the groups.
\<close>

fun rmatch :: "node list \<Rightarrow> string \<Rightarrow> nat \<Rightarrow> captures \<Rightarrow> (nat \<times> captures) option" where
  "rmatch [] s pos caps = Some (pos, caps)"
| "rmatch (Lit c # r) [] pos caps = None"
| "rmatch (Lit c # r) (d # s) pos caps =
     (if canonicalize d = canonicalize c then rmatch r s (Suc pos) caps else None)"
| "rmatch (One k # r) [] pos caps = None"
| "rmatch (One k # r) (d # s) pos caps =
     (if in_class k d then rmatch r s (Suc pos) caps else None)"
| "rmatch (PlusGreedy k # r) [] pos caps = None"
| "rmatch (PlusGreedy k # r) (d # s) pos caps =
     (if in_class k d then rmatch (StarGreedy k # r) s (Suc pos) caps else None)"
| "rmatch (StarGreedy k # r) [] pos caps = rmatch r [] pos caps"
| "rmatch (StarGreedy k # r) (d # s) pos caps =
     (if in_class k d
      then (case rmatch (StarGreedy k # r) s (Suc pos) caps of
              Some res \<Rightarrow> Some res
            | None \<Rightarrow> rmatch r (d # s) pos caps)
      else rmatch r (d # s) pos caps)"
| "rmatch (StarLazy k # r) [] pos caps = rmatch r [] pos caps"
| "rmatch (StarLazy k # r) (d # s) pos caps =
     (case rmatch r (d # s) pos caps of
        Some res \<Rightarrow> Some res
      | None \<Rightarrow> if in_class k d then rmatch (StarLazy k # r) s (Suc pos) caps else None)"
| "rmatch (GroupOpen i # r) s pos caps = rmatch r s pos (caps[i := (pos, pos)])"
| "rmatch (GroupClose i # r) s pos caps = rmatch r s pos (caps[i := (fst (caps ! i), pos)])"
| "rmatch (NotAhead alts # r) s pos caps =
     (if list_ex (\<lambda>a. ci_prefix a s) alts then None else rmatch r s pos caps)"

definition exec :: "node list \<Rightarrow> string \<Rightarrow> (nat \<times> captures) option" where
  "exec r s = rmatch r s 0 (replicate 3 (0, 0))"

definition group :: "string \<Rightarrow> captures \<Rightarrow> nat \<Rightarrow> string" where
  "group s caps i = take (snd (caps ! i) - fst (caps ! i)) (drop (fst (caps ! i)) s)"

text \<open>
  \<open>str.replace(regex, callback)\<close> with the \<open>g\<close> flag: the leftmost match from the current
  position is replaced by the callback's result (inserted as it is), and the search
  goes on behind the match; after an empty match the next character is copied.
  The callback receives the matched text and the groups.
\<close>

fun replaceAll :: "node list \<Rightarrow> (string \<Rightarrow> (nat \<Rightarrow> string) \<Rightarrow> string) \<Rightarrow> string \<Rightarrow> string" where
  "replaceAll r f [] =
     (case exec r [] of
        None \<Rightarrow> []
      | Some (n, caps) \<Rightarrow> f [] (group [] caps))"
| "replaceAll r f (c # cs) =
     (case exec r (c # cs) of
        None \<Rightarrow> c # replaceAll r f cs
      | Some (n, caps) \<Rightarrow>
          if n = 0 then f [] (group (c # cs) caps) @ c # replaceAll r f cs
          else f (take n (c # cs)) (group (c # cs) caps) @ replaceAll r f (drop (n - 1) cs))"

definition absolutePrefixes :: "string list" where
  \<comment> \<open>\<open>(?!http|https:\/\/|\/\/|data:)\<close>\<close>
  "absolutePrefixes = [''http'', ''https://'', ''//'', ''data:'']"

definition cssLinkRegex :: "node list" where
  \<comment> \<open>\<open>/<link\s+([^>]*?)href=["'](?!http|https:\/\/|\/\/|data:)(.*?\.css)["']([^>]*?)>/gi\<close>\<close>
  "cssLinkRegex =
     map Lit ''<link'' @ [PlusGreedy Space, GroupOpen 0, StarLazy NotGt, GroupClose 0]
     @ map Lit ''href='' @ [One Quote, NotAhead absolutePrefixes, GroupOpen 1, StarLazy Dot]
     @ map Lit ''.css'' @ [GroupClose 1, One Quote, GroupOpen 2, StarLazy NotGt, GroupClose 2,
         Lit CHR ''>'']"

definition srcRegex :: "node list" where
  \<comment> \<open>\<open>/src=["'](?!http|https:\/\/|\/\/|data:)(.*?)["']/gi\<close>\<close>
  "srcRegex =
     map Lit ''src='' @ [One Quote, NotAhead absolutePrefixes, GroupOpen 0, StarLazy Dot,
       GroupClose 0, One Quote]"

definition scriptRegex :: "node list" where
  \<comment> \<open>\<open>/<script\s+([^>]*?)src=["'](?!http|https:\/\/|\/\/|data:)(.*?)["']([^>]*?)>/gi\<close>\<close>
  "scriptRegex =
     map Lit ''<script'' @ [PlusGreedy Space, GroupOpen 0, StarLazy NotGt, GroupClose 0]
     @ map Lit ''src='' @ [One Quote, NotAhead absolutePrefixes, GroupOpen 1, StarLazy Dot,
         GroupClose 1, One Quote, GroupOpen 2, StarLazy NotGt, GroupClose 2, Lit CHR ''>'']"

text \<open>
  What the resolver asks of the host: the document's directory, \<open>path.join\<close>,
  \<open>fs.existsSync\<close>, \<open>fs.readFileSync\<close> (\<open>None\<close> when it throws) and the composition of
  \<open>vscode.Uri.file\<close> and \<open>webview.asWebviewUri\<close>, rendered as a string.
\<close>

record resolverHost =
  documentDir :: string
  join :: "string \<Rightarrow> string \<Rightarrow> string"
  existsSync :: "string \<Rightarrow> bool"
  readFileSync :: "string \<Rightarrow> string option"
  asWebviewUri :: "string \<Rightarrow> string"

definition inlineCss :: "resolverHost \<Rightarrow> string \<Rightarrow> (nat \<Rightarrow> string) \<Rightarrow> string" where
  \<comment> \<open>groups: 0 \<open>before\<close>, 1 \<open>cssPath\<close>, 2 \<open>after\<close>; an exception is caught and the match kept\<close>
  "inlineCss h m g =
     (let resourcePath = join h (documentDir h) (g 1)
      in if existsSync h resourcePath
         then (case readFileSync h resourcePath of
                 Some cssContent \<Rightarrow> ''<style>'' @ cssContent @ ''</style>''
               | None \<Rightarrow> m)
         else m)"

definition rewriteSrc :: "resolverHost \<Rightarrow> string \<Rightarrow> (nat \<Rightarrow> string) \<Rightarrow> string" where
  \<comment> \<open>group 0 is \<open>p1\<close>\<close>
  "rewriteSrc h m g =
     ''src='' @ [CHR 0x22] @ asWebviewUri h (join h (documentDir h) (g 0)) @ [CHR 0x22]"

definition inlineScript :: "resolverHost \<Rightarrow> string \<Rightarrow> (nat \<Rightarrow> string) \<Rightarrow> string" where
  \<comment> \<open>groups: 0 \<open>before\<close>, 1 \<open>scriptPath\<close>, 2 \<open>after\<close>\<close>
  "inlineScript h m g =
     (let resourcePath = join h (documentDir h) (g 1)
      in if existsSync h resourcePath
         then (case readFileSync h resourcePath of
                 Some scriptContent \<Rightarrow>
                   ''<script '' @ g 0 @ g 2 @ ''>'' @ scriptContent @ ''</script>''
               | None \<Rightarrow> m)
         else m)"

definition convertResourcePaths :: "resolverHost \<Rightarrow> string \<Rightarrow> string" where
  "convertResourcePaths h html =
     (let html1 = replaceAll cssLinkRegex (inlineCss h) html;
          html2 = replaceAll srcRegex (rewriteSrc h) html1;
          html3 = replaceAll scriptRegex (inlineScript h) html2
      in html3)"

subsection \<open>Notions used to state the resolver properties\<close>

text \<open>
  A reference, as the resolver sees one: an occurrence of \<open>href=\<close> or \<open>src=\<close> (in any
  case) followed by a quote; its value is the text behind the quote. A value is
  absolute when it starts with \<open>http://\<close>, \<open>https://\<close>, \<open>//\<close> or \<open>data:\<close>.
\<close>

definition attr_value :: "string \<Rightarrow> string \<Rightarrow> string option" where
  "attr_value key s =
     (if ci_prefix key s
      then (case drop (length key) s of
              [] \<Rightarrow> None
            | q # v \<Rightarrow> if in_class Quote q then Some v else None)
      else None)"

definition startsWith :: "string \<Rightarrow> string \<Rightarrow> bool" where
  "startsWith p v = (take (length p) v = p)"

definition is_absolute :: "string \<Rightarrow> bool" where
  "is_absolute v =
     (startsWith ''http://'' v \<or> startsWith ''https://'' v \<or> startsWith ''//'' v
      \<or> startsWith ''data:'' v)"

definition absolute_at :: "string \<Rightarrow> string \<Rightarrow> bool" where
  "absolute_at key s = (case attr_value key s of None \<Rightarrow> True | Some v \<Rightarrow> is_absolute v)"

fun only_absolute_refs :: "string \<Rightarrow> bool" where
  "only_absolute_refs [] = True"
| "only_absolute_refs (c # s) =
     (absolute_at ''href='' (c # s) \<and> absolute_at ''src='' (c # s) \<and> only_absolute_refs s)"

fun contains :: "string \<Rightarrow> string \<Rightarrow> bool" where
  \<comment> \<open>\<open>contains s w\<close>: the text \<open>w\<close> occurs in \<open>s\<close>\<close>
  "contains [] w = (w = [])"
| "contains (c # s) w = (startsWith w (c # s) \<or> contains s w)"

subsection \<open>An example host of the resolver\<close>

definition demoHost :: resolverHost where
  \<comment> \<open>the document lies in \<open>/w\<close>, beside a readable \<open>style.css\<close> and a readable \<open>app.js\<close>\<close>
  "demoHost =
     \<lparr>documentDir = ''/w'',
      join = (\<lambda>d p. d @ ''/'' @ p),
      existsSync = (\<lambda>p. p = ''/w/style.css'' \<or> p = ''/w/app.js''),
      readFileSync = (\<lambda>p. if p = ''/w/style.css'' then Some ''body{color:red}''
                           else if p = ''/w/app.js'' then Some ''run()'' else None),
      asWebviewUri = (\<lambda>p. ''https://file+.vscode-resource.vscode-cdn.net'' @ p)\<rparr>"

definition twoLinksDoc :: string where
  \<comment> \<open>an icon link and a stylesheet link on one line\<close>
  "twoLinksDoc =
     ''<link rel=\"icon\" href=\"favicon.ico\"><link rel=\"stylesheet\" href=\"style.css\">''"

definition scriptDoc :: string where
  "scriptDoc = ''<script src=\"app.js\"></script>''"

definition absoluteDoc :: string where
  "absoluteDoc =
     ''<link rel=\"stylesheet\" href=\"https://cdn.example/s.css\"><img src=\"data:image/png;base64,AA\"><script src=\"//cdn.example/x.js\"></script>''"

section \<open>Facts about the array primitives\<close>

lemma findIndex_None: "findIndex P xs = None \<longleftrightarrow> (\<forall>x \<in> set xs. \<not> P x)"
  by (induction xs) auto

lemma findIndex_Some:
  "findIndex P xs = Some i \<Longrightarrow> i < length xs \<and> P (xs ! i) \<and> (\<forall>j < i. \<not> P (xs ! j))"
proof (induction xs arbitrary: i)
  case Nil
  then show ?case by simp
next
  case (Cons x xs)
  show ?case
  proof (cases "P x")
    case True
    with Cons.prems show ?thesis by simp
  next
    case False
    with Cons.prems obtain k where k: "findIndex P xs = Some k" "i = Suc k"
      by auto
    from Cons.IH [OF k(1)] False k(2) show ?thesis
      by (auto simp: less_Suc_eq_0_disj)
  qed
qed

lemma findIndex_split:
  "findIndex P xs = Some i \<Longrightarrow>
     \<exists>ys x zs. xs = ys @ x # zs \<and> length ys = i \<and> P x \<and> (\<forall>y \<in> set ys. \<not> P y)"
proof (induction xs arbitrary: i)
  case Nil
  then show ?case by simp
next
  case (Cons a xs)
  show ?case
  proof (cases "P a")
    case True
    with Cons.prems have "i = 0" by simp
    with True show ?thesis by (intro exI [of _ "[]"]) auto
  next
    case False
    with Cons.prems obtain k where k: "findIndex P xs = Some k" "i = Suc k"
      by auto
    from Cons.IH [OF k(1)] obtain ys x zs
      where "xs = ys @ x # zs" "length ys = k" "P x" "\<forall>y \<in> set ys. \<not> P y"
      by blast
    with False k(2) show ?thesis
      by (intro exI [of _ "a # ys"]) auto
  qed
qed

lemma splice1_split: "length ys = i \<Longrightarrow> splice1 i (ys @ x # zs) = ys @ zs"
  by (simp add: splice1_def)

section \<open>Closing a tab that is not the active one\<close>

text \<open>
  C10. For every store and every id that names an existing tab other than the active one,
  \<open>closeTab\<close> removes exactly that tab (the first one carrying the id): the tab list
  before is \<open>ys @ x # zs\<close> and the list after is \<open>ys @ zs\<close>, so every remaining tab
  keeps all its fields and the order of the remaining tabs is the old one; the active id
  and the counter are unchanged.
\<close>

theorem closeTab_inactive_frame:
  assumes "tabId \<in> set (tab_ids s)" and "tabId \<noteq> activeTabId s"
  shows "\<exists>ys x zs. tabs s = ys @ x # zs \<and> tab_id x = tabId \<and> tabId \<notin> tab_id ` set ys
           \<and> tabs (closeTab h tabId s) = ys @ zs
           \<and> activeTabId (closeTab h tabId s) = activeTabId s
           \<and> tabCounter (closeTab h tabId s) = tabCounter s"
proof -
  from assms(1) have "findIndex (\<lambda>t. tab_id t = tabId) (tabs s) \<noteq> None"
    by (auto simp: findIndex_None tab_ids_def)
  then obtain i where i: "findIndex (\<lambda>t. tab_id t = tabId) (tabs s) = Some i"
    by blast
  from findIndex_split [OF i] obtain ys x zs
    where sp: "tabs s = ys @ x # zs" "length ys = i" "tab_id x = tabId"
      "\<forall>y \<in> set ys. tab_id y \<noteq> tabId"
    by blast
  have "splice1 i (tabs s) = ys @ zs"
    using sp(1,2) by (simp add: splice1_split)
  with i assms(2) have c: "closeTab h tabId s = s\<lparr>tabs := ys @ zs\<rparr>"
    by (simp add: closeTab_def Let_def)
  have "tabs s = ys @ x # zs \<and> tab_id x = tabId \<and> tabId \<notin> tab_id ` set ys
           \<and> tabs (closeTab h tabId s) = ys @ zs
           \<and> activeTabId (closeTab h tabId s) = activeTabId s
           \<and> tabCounter (closeTab h tabId s) = tabCounter s"
    using sp c by auto
  then show ?thesis by blast
qed

theorem closeTab_inactive_frame_witness:
  "''tab-3'' \<in> set (tab_ids threeTabs) \<and> ''tab-3'' \<noteq> activeTabId threeTabs
   \<and> (\<exists>ys x zs. tabs threeTabs = ys @ x # zs \<and> tab_id x = ''tab-3''
          \<and> ''tab-3'' \<notin> tab_id ` set ys
          \<and> tabs (closeTab quietHost ''tab-3'' threeTabs) = ys @ zs
          \<and> activeTabId (closeTab quietHost ''tab-3'' threeTabs) = activeTabId threeTabs
          \<and> tabCounter (closeTab quietHost ''tab-3'' threeTabs) = tabCounter threeTabs)"
proof -
  have h1: "''tab-3'' \<in> set (tab_ids threeTabs)"
    by (simp add: threeTabs_def tab_ids_def newTab_def show_nat.simps digit_char_def)
  have h2: "''tab-3'' \<noteq> activeTabId threeTabs"
    by (simp add: threeTabs_def)
  from closeTab_inactive_frame [OF h1 h2, of quietHost] h1 h2 show ?thesis
    by blast
qed

lemma findIndex_append_hit:
  "\<forall>y \<in> set ys. \<not> P y \<Longrightarrow> P x \<Longrightarrow> findIndex P (ys @ x # zs) = Some (length ys)"
  by (induction ys) auto

lemma nth_eq_split:
  "i < length xs \<Longrightarrow> xs = take i xs @ (xs ! i) # drop (Suc i) xs"
  by (simp add: id_take_nth_drop)

section \<open>Decimal rendering is injective\<close>

lemma digit_char_inj:
  assumes "a < 10" and "b < 10" and "digit_char a = digit_char b"
  shows "a = b"
proof -
  from assms(1) have "a \<in> {0, 1, 2, 3, 4, 5, 6, 7, 8, 9}" by auto
  moreover from assms(2) have "b \<in> {0, 1, 2, 3, 4, 5, 6, 7, 8, 9}" by auto
  ultimately show ?thesis
    using assms(3) by (auto simp: digit_char_def)
qed

lemma show_nat_nonempty: "show_nat n \<noteq> []"
  by (subst show_nat.simps) simp

lemma show_nat_last: "last (show_nat n) = digit_char (n mod 10)"
  by (subst show_nat.simps) simp

lemma show_nat_butlast: "butlast (show_nat n) = (if n < 10 then [] else show_nat (n div 10))"
  by (subst show_nat.simps) simp

lemma show_nat_inj: "show_nat n = show_nat m \<Longrightarrow> n = m"
proof (induction n arbitrary: m rule: show_nat.induct)
  case (1 n)
  from "1.prems" have "digit_char (n mod 10) = digit_char (m mod 10)"
    by (metis show_nat_last)
  then have md: "n mod 10 = m mod 10"
    by (intro digit_char_inj) auto
  from "1.prems" have bl: "butlast (show_nat n) = butlast (show_nat m)"
    by simp
  show ?case
  proof (cases "n < 10")
    case True
    with bl have "m < 10"
      using show_nat_nonempty [of "m div 10"]
      by (auto simp: show_nat_butlast split: if_splits)
    with True md show ?thesis by simp
  next
    case False
    with bl have "show_nat (n div 10) = show_nat (m div 10)"
      using show_nat_nonempty [of "n div 10"]
      by (auto simp: show_nat_butlast split: if_splits)
    with "1.IH" False have "n div 10 = m div 10" by simp
    with md show ?thesis
      by (metis div_mult_mod_eq)
  qed
qed

lemma newTab_id_inj: "tab_id (newTab n) = tab_id (newTab m) \<longleftrightarrow> n = m"
  by (auto simp: newTab_def dest: show_nat_inj)

lemma newTab_id: "tab_id (newTab n) = ''tab-'' @ show_nat n"
  by (simp add: newTab_def)

section \<open>What each method changes\<close>

lemma update_frame:
  "tab_ids (updateActiveTabFromEditor h s) = tab_ids s
   \<and> activeTabId (updateActiveTabFromEditor h s) = activeTabId s
   \<and> tabCounter (updateActiveTabFromEditor h s) = tabCounter s"
proof -
  have "map tab_id (xs[i := (xs ! i)\<lparr>title := a, uri := b, content := c\<rparr>]) = map tab_id xs"
    for xs :: "PreviewTab list" and i a b c
    by (simp add: map_update) (metis list_update_id map_update)
  then show ?thesis
    by (simp add: updateActiveTabFromEditor_def tab_ids_def split: option.splits)
qed

lemma update_last:
  assumes "tabs s = ys @ [newTab n]" and "activeTabId s = tab_id (newTab n)"
    and "tab_id (newTab n) \<notin> tab_id ` set ys"
  shows "updateActiveTabFromEditor h s = s\<lparr>tabs := ys @ [freshTab h n]\<rparr>"
proof -
  have "findIndex (\<lambda>u. tab_id u = tab_id (newTab n)) (ys @ newTab n # []) = Some (length ys)"
  proof (intro findIndex_append_hit ballI)
    fix y assume "y \<in> set ys"
    with assms(3) show "tab_id y \<noteq> tab_id (newTab n)"
      by (metis imageI)
  qed simp
  then show ?thesis
    using assms(1,2)
    by (cases s) (simp add: updateActiveTabFromEditor_def freshTab_def newTab_def split: option.splits)
qed

lemma addNewTab_fresh:
  assumes "tab_id (newTab (Suc (tabCounter s))) \<notin> set (tab_ids s)"
  shows "addNewTab h s
         = s\<lparr>tabCounter := Suc (tabCounter s),
              tabs := tabs s @ [freshTab h (Suc (tabCounter s))],
              activeTabId := tab_id (newTab (Suc (tabCounter s)))\<rparr>"
  using assms
    update_last [of "s\<lparr>tabCounter := Suc (tabCounter s),
        tabs := tabs s @ [newTab (Suc (tabCounter s))],
        activeTabId := tab_id (newTab (Suc (tabCounter s)))\<rparr>" "tabs s" "Suc (tabCounter s)" h]
  by (simp add: addNewTab_def Let_def tab_ids_def)

lemma freshTab_id: "tab_id (freshTab h n) = tab_id (newTab n)"
  by (simp add: freshTab_def split: option.splits)

lemma closeTab_found:
  assumes "tabs s = ys @ x # zs" and "tab_id x = tabId" and "\<forall>y \<in> set ys. tab_id y \<noteq> tabId"
  shows "closeTab h tabId s =
           (if activeTabId s = tabId
            then (if ys @ zs \<noteq> []
                  then s\<lparr>tabs := ys @ zs, activeTabId := tab_id ((ys @ zs) ! (length ys - 1))\<rparr>
                  else addNewTab h (s\<lparr>tabs := []\<rparr>))
            else s\<lparr>tabs := ys @ zs\<rparr>)"
proof -
  have "findIndex (\<lambda>t. tab_id t = tabId) (tabs s) = Some (length ys)"
    using assms by (simp add: findIndex_append_hit)
  moreover have "splice1 (length ys) (tabs s) = ys @ zs"
    using assms(1) by (simp add: splice1_split)
  moreover have "nat (max 0 (int (length ys) - 1)) = length ys - 1"
    by simp
  ultimately show ?thesis
    by (simp add: closeTab_def Let_def del: max_0_1 split: if_splits)
qed

lemma closeTab_not_found:
  "tabId \<notin> set (tab_ids s) \<Longrightarrow> closeTab h tabId s = s"
proof -
  assume "tabId \<notin> set (tab_ids s)"
  then have "findIndex (\<lambda>t. tab_id t = tabId) (tabs s) = None"
    by (auto simp: findIndex_None tab_ids_def)
  then show ?thesis by (simp add: closeTab_def)
qed

text \<open>
  The read \<open>this._tabs[Math.max(0, index - 1)]\<close> in \<open>_closeTab\<close> is never out of range:
  it happens only when a tab remains after the removal at \<open>index\<close>.
\<close>

lemma closeTab_read_in_range:
  assumes "findIndex P xs = Some index" and "splice1 index xs \<noteq> []"
  shows "nat (max 0 (int index - 1)) < length (splice1 index xs)"
proof -
  from findIndex_Some [OF assms(1)] have "index < length xs" by simp
  with assms(2) show ?thesis
    by (cases index) (auto simp: splice1_def)
qed

section \<open>Invariants of the store\<close>

lemma numbered_iff:
  "numbered s \<longleftrightarrow>
     distinct (tab_ids s) \<and>
     (\<forall>i \<in> set (tab_ids s). \<exists>k. 1 \<le> k \<and> k \<le> tabCounter s \<and> i = tab_id (newTab k))"
  by (fastforce simp: numbered_def)

lemma numbered_next_fresh:
  assumes "numbered s"
  shows "tab_id (newTab (Suc (tabCounter s))) \<notin> set (tab_ids s)"
proof
  assume "tab_id (newTab (Suc (tabCounter s))) \<in> set (tab_ids s)"
  with assms obtain k where "k \<le> tabCounter s" "tab_id (newTab (Suc (tabCounter s))) = tab_id (newTab k)"
    by (auto simp: numbered_iff)
  then show False by (simp add: newTab_id_inj)
qed

lemma numbered_emptyStore: "numbered emptyStore"
  by (simp add: numbered_iff emptyStore_def tab_ids_def)

lemma numbered_update: "numbered s \<Longrightarrow> numbered (updateActiveTabFromEditor h s)"
  using update_frame [of h s] by (simp add: numbered_iff)

lemma numbered_switchTab: "numbered s \<Longrightarrow> numbered (switchTab i s)"
  by (simp add: numbered_iff switchTab_def tab_ids_def)

lemma numbered_addNewTab:
  assumes "numbered s"
  shows "numbered (addNewTab h s)"
proof -
  note fresh = numbered_next_fresh [OF assms]
  have ids: "tab_ids (addNewTab h s) = tab_ids s @ [tab_id (newTab (Suc (tabCounter s)))]"
    and cnt: "tabCounter (addNewTab h s) = Suc (tabCounter s)"
    by (simp_all add: addNewTab_fresh [OF fresh] tab_ids_def freshTab_id)
  have "\<exists>k. 1 \<le> k \<and> k \<le> Suc (tabCounter s) \<and> i = tab_id (newTab k)"
    if "i \<in> set (tab_ids s) \<or> i = tab_id (newTab (Suc (tabCounter s)))" for i
    using that assms by (auto simp: numbered_iff intro: le_SucI)
  with assms fresh show ?thesis
    by (simp add: numbered_iff ids cnt)
qed

lemma numbered_drop_tabs:
  assumes "numbered s" and "tabs s = ys @ x # zs"
  shows "numbered (s\<lparr>tabs := ys @ zs\<rparr>)"
  using assms by (auto simp: numbered_iff tab_ids_def)

lemma tab_occurs:
  assumes "tabId \<in> set (tab_ids s)"
  shows "\<exists>ys x zs. tabs s = ys @ x # zs \<and> tab_id x = tabId \<and> (\<forall>y \<in> set ys. tab_id y \<noteq> tabId)"
proof -
  from assms have "findIndex (\<lambda>t. tab_id t = tabId) (tabs s) \<noteq> None"
    by (auto simp: findIndex_None tab_ids_def)
  then obtain i where "findIndex (\<lambda>t. tab_id t = tabId) (tabs s) = Some i"
    by blast
  from findIndex_split [OF this] show ?thesis by blast
qed

lemma numbered_closeTab:
  assumes "numbered s"
  shows "numbered (closeTab h tabId s)"
proof (cases "tabId \<in> set (tab_ids s)")
  case False
  with assms show ?thesis by (simp add: closeTab_not_found)
next
  case True
  from tab_occurs [OF True] obtain ys x zs
    where sp: "tabs s = ys @ x # zs" "tab_id x = tabId" "\<forall>y \<in> set ys. tab_id y \<noteq> tabId"
    by blast
  note dropped = numbered_drop_tabs [OF assms sp(1)]
  have a: "numbered (s\<lparr>tabs := ys @ zs, activeTabId := a\<rparr>)" for a
    using dropped by (simp add: numbered_iff tab_ids_def)
  have b: "numbered (addNewTab h (s\<lparr>tabs := []\<rparr>))" if "ys @ zs = []"
    using dropped that by (intro numbered_addNewTab) simp
  show ?thesis
    using a b dropped by (simp add: closeTab_found [OF sp])
qed

lemma numbered_step: "numbered s \<Longrightarrow> numbered (step h operation s)"
  by (cases operation)
    (simp_all add: numbered_addNewTab numbered_switchTab numbered_closeTab numbered_update)

lemma numbered_run: "numbered s \<Longrightarrow> numbered (run ops s)"
  by (induction ops s rule: run.induct) (simp_all add: numbered_step)

lemma numbered_initStore: "numbered (initStore h)"
  by (simp add: initStore_def numbered_addNewTab numbered_emptyStore)

lemma numbered_reachable: "numbered (run ops (initStore h0))"
  by (simp add: numbered_run numbered_initStore)

text \<open>
  The store invariant of the specification (a non-empty list whose active id names one
  of its tabs) is kept by every operation except a \<open>switchTab\<close> to an id that is not in
  the list.
\<close>

lemma wellFormed_iff:
  "wellFormed s \<longleftrightarrow> tabs s \<noteq> [] \<and> activeTabId s \<in> set (tab_ids s) \<and> numbered s"
  by (simp add: wellFormed_def)

lemma wellFormed_addNewTab:
  assumes "numbered s"
  shows "wellFormed (addNewTab h s)"
  using numbered_addNewTab [OF assms, of h]
  by (simp add: wellFormed_iff addNewTab_fresh [OF numbered_next_fresh [OF assms]] tab_ids_def
      freshTab_id)

lemma wellFormed_update: "wellFormed s \<Longrightarrow> wellFormed (updateActiveTabFromEditor h s)"
  using update_frame [of h s] numbered_update [of s h]
  by (auto simp: wellFormed_iff tab_ids_def dest: arg_cong [where f = length])

lemma wellFormed_closeTab:
  assumes "wellFormed s"
  shows "wellFormed (closeTab h tabId s)"
proof (cases "tabId \<in> set (tab_ids s)")
  case False
  with assms show ?thesis by (simp add: closeTab_not_found)
next
  case True
  from assms have n: "numbered s" and act: "activeTabId s \<in> set (tab_ids s)"
    by (simp_all add: wellFormed_iff)
  from tab_occurs [OF True] obtain ys x zs
    where sp: "tabs s = ys @ x # zs" "tab_id x = tabId" "\<forall>y \<in> set ys. tab_id y \<noteq> tabId"
    by blast
  note dropped = numbered_drop_tabs [OF n sp(1)]
  show ?thesis
  proof (cases "activeTabId s = tabId")
    case False
    with act sp have "activeTabId s \<in> set (map tab_id (ys @ zs))"
      by (auto simp: tab_ids_def)
    moreover from this have "ys @ zs \<noteq> []"
      by auto
    ultimately have "wellFormed (s\<lparr>tabs := ys @ zs\<rparr>)"
      using dropped unfolding wellFormed_iff tab_ids_def by simp
    with False show ?thesis
      by (simp add: closeTab_found [OF sp])
  next
    case active: True
    show ?thesis
    proof (cases "ys @ zs = []")
      case True
      have "wellFormed (addNewTab h (s\<lparr>tabs := []\<rparr>))"
        using dropped True by (intro wellFormed_addNewTab) simp
      with active True show ?thesis
        by (simp add: closeTab_found [OF sp])
    next
      case False
      then have "length ys - 1 < length (ys @ zs)"
        by (cases ys) auto
      then have "tab_id ((ys @ zs) ! (length ys - 1)) \<in> set (map tab_id (ys @ zs))"
        unfolding set_map by (intro imageI nth_mem)
      moreover have "numbered (s\<lparr>tabs := ys @ zs, activeTabId := a\<rparr>)" for a
        using dropped by (simp add: numbered_iff tab_ids_def)
      ultimately have "wellFormed
          (s\<lparr>tabs := ys @ zs, activeTabId := tab_id ((ys @ zs) ! (length ys - 1))\<rparr>)"
        using False unfolding wellFormed_iff tab_ids_def by simp
      with active False show ?thesis
        by (simp add: closeTab_found [OF sp])
    qed
  qed
qed

lemma wellFormed_switchTab:
  "wellFormed s \<Longrightarrow> i \<in> set (tab_ids s) \<Longrightarrow> wellFormed (switchTab i s)"
  by (simp add: wellFormed_iff switchTab_def tab_ids_def numbered_iff)

lemma wellFormed_run:
  "wellFormed s \<Longrightarrow> targetsExist ops s \<Longrightarrow> wellFormed (run ops s)"
proof (induction ops s rule: targetsExist.induct)
  case (1 s)
  then show ?case by simp
next
  case (2 h i rest s)
  then show ?case by (simp add: wellFormed_switchTab)
next
  case (3 h rest s)
  from "3.prems"(1) have "wellFormed (addNewTab h s)"
    by (intro wellFormed_addNewTab) (simp add: wellFormed_iff)
  with 3 show ?case by simp
next
  case (4 h i rest s)
  then show ?case by (simp add: wellFormed_closeTab)
next
  case (5 h rest s)
  then show ?case by (simp add: wellFormed_update)
qed

lemma wellFormed_initStore: "wellFormed (initStore h)"
  by (simp add: initStore_def wellFormed_addNewTab numbered_emptyStore)

lemma freshTab_unbound: "unbound (freshTab h n) = (\<not> htmlFocused h)"
  by (simp add: freshTab_def unbound_def htmlFocused_def newTab_def split: option.splits)

lemma initStore_eq:
  "initStore h = \<lparr>tabs = [freshTab h 1], activeTabId = ''tab-1'', tabCounter = 1\<rparr>"
  using addNewTab_fresh [of emptyStore h]
  by (simp add: initStore_def emptyStore_def tab_ids_def newTab_id show_nat.simps digit_char_def)

lemma initStore_quietHost:
  "initStore quietHost = \<lparr>tabs = [newTab 1], activeTabId = ''tab-1'', tabCounter = 1\<rparr>"
  by (simp add: initStore_eq freshTab_def quietHost_def)

section \<open>Creating a tab\<close>

text \<open>
  C9, as the code has it. In every store that a run of operations reaches from the
  constructor, \<open>_addNewTab\<close> increments the counter to \<open>N\<close>, appends one tab with id
  \<open>tab-N\<close> and leaves that id as the active id; the method returns nothing. The
  appended tab is the unbound placeholder (no uri, empty content, title \<open>Tab N\<close>) exactly
  when no HTML document is focused in the editor; when one is focused, the tab is bound
  to it (uri, base name as title, full text) before \<open>_addNewTab\<close> returns.
\<close>

theorem addNewTab_appends_fresh_tab:
  "(let s = run ops (initStore h0); n = Suc (tabCounter s)
    in addNewTab h s = s\<lparr>tabCounter := n, tabs := tabs s @ [freshTab h n],
                          activeTabId := ''tab-'' @ show_nat n\<rparr>
       \<and> tab_id (freshTab h n) = ''tab-'' @ show_nat n
       \<and> unbound (freshTab h n) = (\<not> htmlFocused h)
       \<and> (if htmlFocused h then uri (freshTab h n) \<noteq> None else freshTab h n = newTab n))"
proof -
  have "tab_id (newTab (Suc (tabCounter (run ops (initStore h0)))))
          \<notin> set (tab_ids (run ops (initStore h0)))"
    by (intro numbered_next_fresh numbered_reachable)
  from addNewTab_fresh [OF this, of h] show ?thesis
    by (simp add: Let_def newTab_id freshTab_id freshTab_unbound)
      (simp add: freshTab_def htmlFocused_def split: option.splits)
qed

text \<open>
  C9 as stated fails: with an HTML document focused, the tab that \<open>_addNewTab\<close> has just
  appended is bound to that document when the method returns.
\<close>

theorem addNewTab_binds_focused_html:
  "tabs (addNewTab htmlHost (initStore quietHost)) =
     [newTab 1,
      \<lparr>tab_id = ''tab-2'', title = ''index.html'', uri = Some ''file:///w/index.html'',
       content = ''<p>hi</p>''\<rparr>]
   \<and> \<not> unbound (last (tabs (addNewTab htmlHost (initStore quietHost))))"
proof -
  have "tab_id (newTab (Suc (tabCounter (initStore quietHost)))) \<notin> set (tab_ids (initStore quietHost))"
    by (intro numbered_next_fresh numbered_initStore)
  from addNewTab_fresh [OF this, of htmlHost] show ?thesis
    by (simp add: initStore_quietHost freshTab_def htmlHost_def unbound_def newTab_def
        show_nat.simps digit_char_def)
qed

section \<open>Switching to an id that is not in the list\<close>

text \<open>
  C2, at a failing input. \<open>_switchTab\<close> assigns the id it is given without looking for a
  tab that carries it: from the constructor's store (one tab, \<open>tab-1\<close>, active),
  \<open>switchTab "nonexistent"\<close> leaves \<open>nonexistent\<close> as the active id although no tab has
  that id.
\<close>

theorem switchTab_unknown_id_is_assigned:
  "activeTabId (initStore quietHost) = ''tab-1''
   \<and> ''nonexistent'' \<notin> set (tab_ids (initStore quietHost))
   \<and> activeTabId (switchTab ''nonexistent'' (initStore quietHost)) = ''nonexistent''"
  by (simp add: initStore_quietHost switchTab_def tab_ids_def newTab_def show_nat.simps
      digit_char_def)

text \<open>
  C1, at a failing input. After \<open>switchTab "tab-7"\<close> on the constructor's store the active
  id names no tab of the list; a following \<open>closeTab "tab-1"\<close> then removes the only tab
  without creating a new one, because the closed tab is not the active one, and returns
  with an empty list.
\<close>

theorem stale_switch_breaks_store_invariant:
  "activeTabId (run [(quietHost, SwitchTab ''tab-7'')] (initStore quietHost))
     \<notin> set (tab_ids (run [(quietHost, SwitchTab ''tab-7'')] (initStore quietHost)))
   \<and> tabs (run [(quietHost, SwitchTab ''tab-7''), (quietHost, CloseTab ''tab-1'')]
        (initStore quietHost)) = []"
  by (simp add: initStore_quietHost switchTab_def closeTab_def splice1_def tab_ids_def
      newTab_def show_nat.simps digit_char_def)

section \<open>Closing a tab\<close>

text \<open>
  Closing the tab at index \<open>i\<close> in a store with pairwise distinct ids.
\<close>

lemma closeTab_at_index:
  assumes "i < length (tabs s)" and "tab_id (tabs s ! i) = tabId" and "distinct (tab_ids s)"
  shows "tabs (closeTab h tabId s) =
           (if activeTabId s = tabId \<and> splice1 i (tabs s) = []
            then [freshTab h (Suc (tabCounter s))]
            else splice1 i (tabs s))
         \<and> activeTabId (closeTab h tabId s) =
           (if activeTabId s \<noteq> tabId then activeTabId s
            else if splice1 i (tabs s) \<noteq> []
            then tab_id (splice1 i (tabs s) ! nat (max 0 (int i - 1)))
            else ''tab-'' @ show_nat (Suc (tabCounter s)))
         \<and> tab_id (freshTab h (Suc (tabCounter s))) = ''tab-'' @ show_nat (Suc (tabCounter s))
         \<and> unbound (freshTab h (Suc (tabCounter s))) = (\<not> htmlFocused h)"
proof -
  define ys zs where ys_zs_def: "ys = take i (tabs s)" "zs = drop (Suc i) (tabs s)"
  have sp: "tabs s = ys @ (tabs s ! i) # zs"
    unfolding ys_zs_def using assms(1) by (rule nth_eq_split)
  have "\<forall>y \<in> set ys. tab_id y \<noteq> tabId"
  proof
    fix y assume "y \<in> set ys"
    then have "tab_id y \<in> set (map tab_id ys)" by simp
    moreover have "distinct (map tab_id ys @ tab_id (tabs s ! i) # map tab_id zs)"
      using assms(3) sp unfolding tab_ids_def by (metis list.simps(9) map_append)
    ultimately show "tab_id y \<noteq> tabId"
      using assms(2) by auto
  qed
  note found = closeTab_found [OF sp assms(2) this, of h]
  have len: "length ys = i"
    unfolding ys_zs_def using assms(1) by simp
  have rest: "splice1 i (tabs s) = ys @ zs"
    by (simp add: splice1_def ys_zs_def)
  have idx: "nat (max 0 (int i - 1)) = i - 1"
    by simp
  have fresh: "addNewTab h (s\<lparr>tabs := []\<rparr>)
      = s\<lparr>tabCounter := Suc (tabCounter s), tabs := [freshTab h (Suc (tabCounter s))],
          activeTabId := tab_id (newTab (Suc (tabCounter s)))\<rparr>"
    using addNewTab_fresh [of "s\<lparr>tabs := []\<rparr>" h] by (simp add: tab_ids_def)
  show ?thesis
    unfolding rest idx found len fresh
    by (simp add: newTab_id freshTab_id freshTab_unbound)
qed

text \<open>
  C3, as the code has it. In every store that a run of operations reaches from the
  constructor, with a tab of the given id at index \<open>i\<close>, \<open>closeTab\<close> removes that tab.
  If it was the active tab and tabs remain, the new active id is the id at index
  \<open>max 0 (i - 1)\<close> of the remaining list. If it was the active tab and none remains, one
  fresh tab \<open>tab-N\<close> is created and made active; that tab is unbound exactly when no HTML
  document is focused in the editor; otherwise it is bound to the focused document
  before \<open>closeTab\<close> returns.
\<close>

theorem closeTab_policy:
  assumes "s = run ops (initStore h0)" and "i < length (tabs s)"
    and "tab_id (tabs s ! i) = tabId"
  shows "tabs (closeTab h tabId s) =
           (if activeTabId s = tabId \<and> splice1 i (tabs s) = []
            then [freshTab h (Suc (tabCounter s))]
            else splice1 i (tabs s))
         \<and> activeTabId (closeTab h tabId s) =
           (if activeTabId s \<noteq> tabId then activeTabId s
            else if splice1 i (tabs s) \<noteq> []
            then tab_id (splice1 i (tabs s) ! nat (max 0 (int i - 1)))
            else ''tab-'' @ show_nat (Suc (tabCounter s)))
         \<and> tab_id (freshTab h (Suc (tabCounter s))) = ''tab-'' @ show_nat (Suc (tabCounter s))
         \<and> unbound (freshTab h (Suc (tabCounter s))) = (\<not> htmlFocused h)"
proof -
  have "numbered s"
    unfolding assms(1) by (rule numbered_reachable)
  then have "distinct (tab_ids s)"
    by (simp add: numbered_iff)
  from closeTab_at_index [OF assms(2,3) this] show ?thesis .
qed

theorem closeTab_policy_witness:
  "run [(quietHost, CreateTab), (quietHost, CreateTab), (quietHost, SwitchTab ''tab-2'')]
     (initStore quietHost) = threeTabs
   \<and> 1 < length (tabs threeTabs) \<and> tab_id (tabs threeTabs ! 1) = ''tab-2''
   \<and> tabs (closeTab quietHost ''tab-2'' threeTabs) = [newTab 1, newTab 3]
   \<and> activeTabId (closeTab quietHost ''tab-2'' threeTabs) = ''tab-1''"
proof -
  have r: "run [(quietHost, CreateTab), (quietHost, CreateTab), (quietHost, SwitchTab ''tab-2'')]
      (initStore quietHost) = threeTabs"
    unfolding initStore_quietHost
    by (simp add: threeTabs_def addNewTab_def switchTab_def updateActiveTabFromEditor_def
        quietHost_def newTab_def show_nat.simps digit_char_def Let_def)
  have h1: "1 < length (tabs threeTabs)"
    by (simp add: threeTabs_def)
  have h2: "tab_id (tabs threeTabs ! 1) = ''tab-2''"
    by (simp add: threeTabs_def newTab_def show_nat.simps digit_char_def)
  have "tabs (closeTab quietHost ''tab-2'' threeTabs) = [newTab 1, newTab 3]
      \<and> activeTabId (closeTab quietHost ''tab-2'' threeTabs) = ''tab-1''"
    using closeTab_policy [OF r [symmetric] h1 h2, of quietHost]
    by (simp add: threeTabs_def splice1_def newTab_def show_nat.simps digit_char_def)
  with r h1 h2 show ?thesis
    by blast
qed

text \<open>
  C3 as stated fails where it says that the tab created after the last tab was closed is
  unbound: with an HTML document focused, closing the only tab leaves one new tab that
  is already bound to that document.
\<close>

theorem closeTab_last_tab_binds_focused_html:
  "tabs (closeTab htmlHost ''tab-1'' (initStore quietHost)) =
     [\<lparr>tab_id = ''tab-2'', title = ''index.html'', uri = Some ''file:///w/index.html'',
       content = ''<p>hi</p>''\<rparr>]
   \<and> activeTabId (closeTab htmlHost ''tab-1'' (initStore quietHost)) = ''tab-2''
   \<and> \<not> unbound (hd (tabs (closeTab htmlHost ''tab-1'' (initStore quietHost))))"
proof -
  have "closeTab htmlHost ''tab-1'' (initStore quietHost)
        = addNewTab htmlHost \<lparr>tabs = [], activeTabId = ''tab-1'', tabCounter = 1\<rparr>"
    by (simp add: initStore_quietHost closeTab_def splice1_def newTab_def show_nat.simps
        digit_char_def)
  moreover have "addNewTab htmlHost \<lparr>tabs = [], activeTabId = ''tab-1'', tabCounter = 1\<rparr>
        = \<lparr>tabs = [freshTab htmlHost 2], activeTabId = ''tab-2'', tabCounter = 2\<rparr>"
    using addNewTab_fresh [of "\<lparr>tabs = [], activeTabId = ''tab-1'', tabCounter = 1\<rparr>" htmlHost]
    by (simp add: tab_ids_def newTab_id show_nat.simps digit_char_def numeral_2_eq_2)
  ultimately show ?thesis
    by (simp add: freshTab_def htmlHost_def unbound_def newTab_def show_nat.simps digit_char_def)
qed

section \<open>Tab ids over the lifetime of the store\<close>

lemma created_by_step:
  assumes "numbered s"
  shows "created_by h operation s = [] \<and> tabCounter (step h operation s) = tabCounter s
         \<or> created_by h operation s = [tab_id (newTab (Suc (tabCounter s)))]
           \<and> tabCounter (step h operation s) = Suc (tabCounter s)"
proof (cases operation)
  case CreateTab
  from addNewTab_fresh [OF numbered_next_fresh [OF assms], of h] CreateTab show ?thesis
    by (simp add: created_by_def freshTab_id)
next
  case (SwitchTab i)
  then show ?thesis by (simp add: created_by_def switchTab_def)
next
  case (CloseTab tabId)
  show ?thesis
  proof (cases "tabId \<in> set (tab_ids s)")
    case False
    with CloseTab show ?thesis
      by (simp add: created_by_def closeTab_not_found)
  next
    case True
    from tab_occurs [OF True] obtain ys x zs
      where sp: "tabs s = ys @ x # zs" "tab_id x = tabId" "\<forall>y \<in> set ys. tab_id y \<noteq> tabId"
      by blast
    have "addNewTab h (s\<lparr>tabs := []\<rparr>)
      = s\<lparr>tabCounter := Suc (tabCounter s), tabs := [freshTab h (Suc (tabCounter s))],
          activeTabId := tab_id (newTab (Suc (tabCounter s)))\<rparr>"
      using addNewTab_fresh [of "s\<lparr>tabs := []\<rparr>" h] by (simp add: tab_ids_def)
    with CloseTab show ?thesis
      by (simp add: created_by_def closeTab_found [OF sp] freshTab_id)
  qed
next
  case BindAndUpdate
  with update_frame [of h s] show ?thesis by (simp add: created_by_def)
qed

lemma created_ids_later:
  assumes "numbered s"
  shows "distinct (created_ids ops s)
         \<and> (\<forall>i \<in> set (created_ids ops s). \<exists>k. tabCounter s < k \<and> i = tab_id (newTab k))"
  using assms
proof (induction ops arbitrary: s)
  case Nil
  then show ?case by simp
next
  case (Cons a ops)
  obtain h operation where a: "a = (h, operation)"
    by (cases a)
  let ?s' = "step h operation s"
  from Cons.prems have "numbered ?s'"
    by (rule numbered_step)
  from Cons.IH [OF this]
  have d: "distinct (created_ids ops ?s')"
    and later: "\<And>i. i \<in> set (created_ids ops ?s') \<Longrightarrow> \<exists>k. tabCounter ?s' < k \<and> i = tab_id (newTab k)"
    by blast+
  from created_by_step [OF Cons.prems, of h operation] show ?case
  proof
    assume "created_by h operation s = [] \<and> tabCounter ?s' = tabCounter s"
    with d later a show ?thesis by auto
  next
    assume c: "created_by h operation s = [tab_id (newTab (Suc (tabCounter s)))]
               \<and> tabCounter ?s' = Suc (tabCounter s)"
    have "tab_id (newTab (Suc (tabCounter s))) \<notin> set (created_ids ops ?s')"
    proof
      assume "tab_id (newTab (Suc (tabCounter s))) \<in> set (created_ids ops ?s')"
      from later [OF this] c show False
        by (auto simp: newTab_id_inj)
    qed
    moreover have "\<exists>k. tabCounter s < k \<and> i = tab_id (newTab k)"
      if "i \<in> set (created_ids ops ?s')" for i
      using later [OF that] c by (auto intro: Suc_lessD)
    ultimately show ?thesis
      using c d a by auto
  qed
qed

text \<open>
  C8. The ids of all tabs created over the lifetime of a store (the constructor's tab,
  then every tab created by an operation of the run, whether later closed or not) are
  pairwise distinct, for every run of operations and every host state along it: each
  creation takes the next value of the counter, and the decimal rendering of the counter
  is injective. (The counter counts in the natural numbers; the JavaScript number it
  models is exact up to \<open>2 ^ 53\<close> increments.)
\<close>

theorem lifetime_ids_distinct: "distinct (lifetime_ids h0 ops)"
proof -
  have cnt: "tabCounter (initStore h0) = 1"
    by (simp add: initStore_eq)
  have "step h0 CreateTab emptyStore = initStore h0"
    by (simp add: initStore_def)
  then have first: "created_by h0 CreateTab emptyStore = [tab_id (newTab 1)]"
    by (simp add: created_by_def initStore_eq emptyStore_def freshTab_id del: step.simps)
  from created_ids_later [OF numbered_initStore, of ops h0]
  have d: "distinct (created_ids ops (initStore h0))"
    and later: "\<And>i. i \<in> set (created_ids ops (initStore h0)) \<Longrightarrow>
                 \<exists>k. 1 < k \<and> i = tab_id (newTab k)"
    unfolding cnt by blast+
  have "tab_id (newTab 1) \<notin> set (created_ids ops (initStore h0))"
  proof
    assume "tab_id (newTab 1) \<in> set (created_ids ops (initStore h0))"
    from later [OF this] show False
      by (auto simp: newTab_id_inj)
  qed
  with d first show ?thesis
    by (simp add: lifetime_ids_def)
qed

theorem lifetime_ids_distinct_witness:
  "lifetime_ids quietHost
     [(quietHost, CreateTab), (quietHost, CloseTab ''tab-2''), (quietHost, CloseTab ''tab-1''),
      (htmlHost, CreateTab)]
   = [''tab-1'', ''tab-2'', ''tab-3'', ''tab-4'']
   \<and> distinct (lifetime_ids quietHost
     [(quietHost, CreateTab), (quietHost, CloseTab ''tab-2''), (quietHost, CloseTab ''tab-1''),
      (htmlHost, CreateTab)])"
proof -
  have "lifetime_ids quietHost
     [(quietHost, CreateTab), (quietHost, CloseTab ''tab-2''), (quietHost, CloseTab ''tab-1''),
      (htmlHost, CreateTab)]
   = [''tab-1'', ''tab-2'', ''tab-3'', ''tab-4'']"
    by (simp add: lifetime_ids_def created_by_def initStore_def emptyStore_def addNewTab_def
        closeTab_def splice1_def updateActiveTabFromEditor_def quietHost_def htmlHost_def
        newTab_def show_nat.simps digit_char_def Let_def)
  with lifetime_ids_distinct [of quietHost
      "[(quietHost, CreateTab), (quietHost, CloseTab ''tab-2''), (quietHost, CloseTab ''tab-1''),
        (htmlHost, CreateTab)]"]
  show ?thesis by simp
qed

section \<open>Disposal and the pending debounce timer\<close>

text \<open>
  C4, at a failing input. A change of the focused document arms the timer, \<open>dispose\<close>
  runs, and the timer expires afterwards. \<open>dispose\<close> releases the listeners but leaves
  the timer pending, since the handle lives in a local variable of the constructor that
  \<open>dispose\<close> cannot reach; on expiry the callback runs \<open>_updateActiveTabFromEditor\<close>,
  which writes uri, title and content of the active tab (and only then calls
  \<open>_update\<close>). The tab is unbound when \<open>dispose\<close> returns and bound after the expiry.
\<close>

theorem pending_timer_fires_after_dispose:
  "pending (deliverAll [(htmlHost, TextDocumentChanged True), (htmlHost, Dispose)]
      (newPanel quietHost)) = [0]
   \<and> tabs (pstore (deliverAll [(htmlHost, TextDocumentChanged True), (htmlHost, Dispose)]
      (newPanel quietHost))) = [newTab 1]
   \<and> tabs (pstore (deliverAll [(htmlHost, TextDocumentChanged True), (htmlHost, Dispose),
      (htmlHost, TimerExpired 0)] (newPanel quietHost)))
     = [\<lparr>tab_id = ''tab-1'', title = ''index.html'', uri = Some ''file:///w/index.html'',
         content = ''<p>hi</p>''\<rparr>]"
  by (simp add: newPanel_def initStore_quietHost onDidChangeTextDocument_def setTimeout_def
      dispose_def updateActiveTabFromEditor_def htmlHost_def newTab_def show_nat.simps
      digit_char_def)

text \<open>
  What \<open>dispose\<close> does achieve: once it has run, no listener reacts any more, so no new
  timer is armed and no message or editor switch reaches the store.
\<close>

lemma disposed_ignores_listener_events:
  "\<not> listening p \<Longrightarrow> e \<noteq> Dispose \<Longrightarrow> (\<forall>t. e \<noteq> TimerExpired t) \<Longrightarrow> deliver h e p = p"
  by (cases e) simp_all

section \<open>Properties of the matcher\<close>

lemma rmatch_star_greedy:
  "rmatch (StarGreedy k # r) s pos caps = Some res \<Longrightarrow>
     \<exists>u v pos'. s = u @ v \<and> rmatch r v pos' caps = Some res"
proof (induction s arbitrary: pos)
  case Nil
  then show ?case by auto
next
  case (Cons d s)
  show ?case
  proof (cases "in_class k d \<and> rmatch (StarGreedy k # r) s (Suc pos) caps \<noteq> None")
    case True
    with Cons.prems have "rmatch (StarGreedy k # r) s (Suc pos) caps = Some res"
      by auto
    from Cons.IH [OF this] obtain u v pos' where "s = u @ v" "rmatch r v pos' caps = Some res"
      by blast
    then have "d # s = (d # u) @ v \<and> rmatch r v pos' caps = Some res"
      by simp
    then show ?thesis by blast
  next
    case False
    with Cons.prems have "rmatch r (d # s) pos caps = Some res"
      by (auto split: if_splits option.splits)
    then have "d # s = [] @ (d # s) \<and> rmatch r (d # s) pos caps = Some res"
      by simp
    then show ?thesis by blast
  qed
qed

lemma rmatch_star_lazy:
  "rmatch (StarLazy k # r) s pos caps = Some res \<Longrightarrow>
     \<exists>u v pos'. s = u @ v \<and> rmatch r v pos' caps = Some res"
proof (induction s arbitrary: pos)
  case Nil
  then show ?case by auto
next
  case (Cons d s)
  show ?case
  proof (cases "rmatch r (d # s) pos caps")
    case (Some res')
    with Cons.prems have "d # s = [] @ (d # s) \<and> rmatch r (d # s) pos caps = Some res"
      by simp
    then show ?thesis by blast
  next
    case None
    with Cons.prems have "rmatch (StarLazy k # r) s (Suc pos) caps = Some res"
      by (auto split: if_splits)
    from Cons.IH [OF this] obtain u v pos' where "s = u @ v" "rmatch r v pos' caps = Some res"
      by blast
    then have "d # s = (d # u) @ v \<and> rmatch r v pos' caps = Some res"
      by simp
    then show ?thesis by blast
  qed
qed

lemma rmatch_tail:
  assumes "rmatch (x # r) s pos caps = Some res"
  shows "\<exists>u v pos' caps'. s = u @ v \<and> rmatch r v pos' caps' = Some res"
proof (cases x)
  case (Lit c)
  with assms obtain d s' where "s = [d] @ s'" "rmatch r s' (Suc pos) caps = Some res"
    by (cases s) (auto split: if_splits)
  then show ?thesis by blast
next
  case (One k)
  with assms obtain d s' where "s = [d] @ s'" "rmatch r s' (Suc pos) caps = Some res"
    by (cases s) (auto split: if_splits)
  then show ?thesis by blast
next
  case (PlusGreedy k)
  with assms obtain d s' where s: "s = d # s'"
    and "rmatch (StarGreedy k # r) s' (Suc pos) caps = Some res"
    by (cases s) (auto split: if_splits)
  from rmatch_star_greedy [OF this(2)] obtain u v pos'
    where "s' = u @ v" "rmatch r v pos' caps = Some res"
    by blast
  with s have "s = (d # u) @ v \<and> rmatch r v pos' caps = Some res"
    by simp
  then show ?thesis by blast
next
  case (StarGreedy k)
  with assms have "rmatch (StarGreedy k # r) s pos caps = Some res" by simp
  from rmatch_star_greedy [OF this] show ?thesis by blast
next
  case (StarLazy k)
  with assms have "rmatch (StarLazy k # r) s pos caps = Some res" by simp
  from rmatch_star_lazy [OF this] show ?thesis by blast
next
  case (GroupOpen i)
  with assms have "s = [] @ s \<and> rmatch r s pos (caps[i := (pos, pos)]) = Some res"
    by simp
  then show ?thesis by blast
next
  case (GroupClose i)
  with assms have "s = [] @ s \<and> rmatch r s pos (caps[i := (fst (caps ! i), pos)]) = Some res"
    by simp
  then show ?thesis by blast
next
  case (NotAhead alts)
  with assms have "s = [] @ s \<and> rmatch r s pos caps = Some res"
    by (simp split: if_splits)
  then show ?thesis by blast
qed

lemma rmatch_skip:
  "rmatch (xs @ r) s pos caps = Some res \<Longrightarrow>
     \<exists>u v pos' caps'. s = u @ v \<and> rmatch r v pos' caps' = Some res"
proof (induction xs arbitrary: s pos caps)
  case Nil
  then have "s = [] @ s \<and> rmatch r s pos caps = Some res" by simp
  then show ?case by blast
next
  case (Cons x xs)
  from Cons.prems have "rmatch (x # (xs @ r)) s pos caps = Some res" by simp
  from rmatch_tail [OF this] obtain u v pos' caps'
    where 1: "s = u @ v" "rmatch (xs @ r) v pos' caps' = Some res"
    by blast
  from Cons.IH [OF 1(2)] obtain u' v' pos'' caps''
    where 2: "v = u' @ v'" "rmatch r v' pos'' caps'' = Some res"
    by blast
  from 1(1) 2 have "s = (u @ u') @ v' \<and> rmatch r v' pos'' caps'' = Some res"
    by simp
  then show ?case by blast
qed

lemma rmatch_attr:
  "rmatch (map Lit key @ One Quote # NotAhead alts # r) s pos caps = Some res \<Longrightarrow>
     \<exists>v. attr_value key s = Some v \<and> \<not> list_ex (\<lambda>a. ci_prefix a v) alts"
proof (induction key arbitrary: s pos)
  case Nil
  then show ?case
    by (cases s) (auto simp: attr_value_def split: if_splits)
next
  case (Cons a key)
  from Cons.prems obtain d s' where s: "s = d # s'" "canonicalize d = canonicalize a"
    and "rmatch (map Lit key @ One Quote # NotAhead alts # r) s' (Suc pos) caps = Some res"
    by (cases s) (auto split: if_splits)
  from Cons.IH [OF this(3)] obtain v
    where "attr_value key s' = Some v" "\<not> list_ex (\<lambda>a. ci_prefix a v) alts"
    by blast
  with s show ?case
    by (auto simp: attr_value_def split: if_splits)
qed

section \<open>Documents whose references are all absolute\<close>

lemma ci_prefix_refl_take: "take (length p) v = p \<Longrightarrow> ci_prefix p v"
proof (induction p arbitrary: v)
  case Nil
  then show ?case by simp
next
  case (Cons a p)
  then show ?case by (cases v) auto
qed

lemma ci_prefix_shorter: "ci_prefix (p @ q) v \<Longrightarrow> ci_prefix p v"
proof (induction p arbitrary: v)
  case Nil
  then show ?case by simp
next
  case (Cons a p)
  then show ?case by (cases v) auto
qed

lemma startsWith_ci_prefix: "startsWith (p @ q) v \<Longrightarrow> ci_prefix p v"
  unfolding startsWith_def by (intro ci_prefix_shorter [of p q] ci_prefix_refl_take)

lemma absolute_is_excluded:
  assumes "is_absolute v"
  shows "list_ex (\<lambda>a. ci_prefix a v) absolutePrefixes"
proof -
  from assms consider "startsWith (''http'' @ ''://'') v" | "startsWith (''http'' @ ''s://'') v"
    | "startsWith (''//'' @ []) v" | "startsWith (''data:'' @ []) v"
    by (auto simp: is_absolute_def)
  then have "ci_prefix ''http'' v \<or> ci_prefix ''//'' v \<or> ci_prefix ''data:'' v"
    by cases (blast dest: startsWith_ci_prefix)+
  then show ?thesis
    by (auto simp: absolutePrefixes_def)
qed

lemma only_absolute_refs_suffix: "only_absolute_refs (u @ v) \<Longrightarrow> only_absolute_refs v"
  by (induction u) auto

lemma only_absolute_refs_here:
  assumes "only_absolute_refs s" and "attr_value key s = Some w"
    and "key = ''href='' \<or> key = ''src=''"
  shows "is_absolute w"
proof (cases s)
  case Nil
  with assms(2,3) show ?thesis
    by (auto simp: attr_value_def)
next
  case (Cons c s')
  with assms show ?thesis
    by (auto simp: absolute_at_def)
qed

lemma absolute_refs_no_match:
  assumes "only_absolute_refs s" and "key = ''href='' \<or> key = ''src=''"
  shows "rmatch (pre @ map Lit key @ One Quote # NotAhead absolutePrefixes # post) s pos caps = None"
proof (rule ccontr)
  assume "rmatch (pre @ map Lit key @ One Quote # NotAhead absolutePrefixes # post) s pos caps \<noteq> None"
  then obtain res
    where "rmatch (pre @ map Lit key @ One Quote # NotAhead absolutePrefixes # post) s pos caps = Some res"
    by blast
  from rmatch_skip [OF this] obtain u v pos' caps'
    where s: "s = u @ v"
      and "rmatch (map Lit key @ One Quote # NotAhead absolutePrefixes # post) v pos' caps' = Some res"
    by blast
  from rmatch_attr [OF this(2)] obtain w
    where w: "attr_value key v = Some w" "\<not> list_ex (\<lambda>a. ci_prefix a w) absolutePrefixes"
    by blast
  from assms(1) s have "only_absolute_refs v"
    by (simp add: only_absolute_refs_suffix)
  from only_absolute_refs_here [OF this w(1) assms(2)] have "is_absolute w" .
  with w(2) show False
    by (simp add: absolute_is_excluded)
qed

lemma replaceAll_no_match:
  assumes "\<And>u v. s = u @ v \<Longrightarrow> exec r v = None"
  shows "replaceAll r f s = s"
  using assms
proof (induction s)
  case Nil
  from Nil [of "[]" "[]"] show ?case by simp
next
  case (Cons c s)
  from Cons.prems [of "[]" "c # s"] have "exec r (c # s) = None" by simp
  moreover have "replaceAll r f s = s"
  proof (rule Cons.IH)
    fix u v assume "s = u @ v"
    then have "c # s = (c # u) @ v" by simp
    then show "exec r v = None" by (rule Cons.prems)
  qed
  ultimately show ?case by simp
qed

lemma regex_shapes:
  "cssLinkRegex =
     (map Lit ''<link'' @ [PlusGreedy Space, GroupOpen 0, StarLazy NotGt, GroupClose 0])
     @ map Lit ''href='' @ One Quote # NotAhead absolutePrefixes
     # ([GroupOpen 1, StarLazy Dot] @ map Lit ''.css'' @ [GroupClose 1, One Quote, GroupOpen 2,
         StarLazy NotGt, GroupClose 2, Lit CHR ''>''])"
  "srcRegex =
     [] @ map Lit ''src='' @ One Quote # NotAhead absolutePrefixes
     # [GroupOpen 0, StarLazy Dot, GroupClose 0, One Quote]"
  "scriptRegex =
     (map Lit ''<script'' @ [PlusGreedy Space, GroupOpen 0, StarLazy NotGt, GroupClose 0])
     @ map Lit ''src='' @ One Quote # NotAhead absolutePrefixes
     # [GroupOpen 1, StarLazy Dot, GroupClose 1, One Quote, GroupOpen 2, StarLazy NotGt,
        GroupClose 2, Lit CHR ''>'']"
  by (simp_all add: cssLinkRegex_def srcRegex_def scriptRegex_def)

lemma absolute_refs_pass:
  assumes "only_absolute_refs s"
  shows "replaceAll cssLinkRegex f s = s" and "replaceAll srcRegex g s = s"
    and "replaceAll scriptRegex k s = s"
proof -
  have suffix: "only_absolute_refs v" if "s = u @ v" for u v
    using assms that by (simp add: only_absolute_refs_suffix)
  show "replaceAll cssLinkRegex f s = s"
    unfolding regex_shapes(1) exec_def
    by (intro replaceAll_no_match) (simp only: exec_def absolute_refs_no_match [OF suffix] simp_thms)
  show "replaceAll srcRegex g s = s"
    unfolding regex_shapes(2)
    by (intro replaceAll_no_match) (simp only: exec_def absolute_refs_no_match [OF suffix] simp_thms)
  show "replaceAll scriptRegex k s = s"
    unfolding regex_shapes(3)
    by (intro replaceAll_no_match) (simp only: exec_def absolute_refs_no_match [OF suffix] simp_thms)
qed

text \<open>
  C7. A document in which every reference (every occurrence of \<open>href=\<close> or \<open>src=\<close>
  followed by a quote) has a value starting with \<open>http://\<close>, \<open>https://\<close>, \<open>//\<close> or
  \<open>data:\<close> is returned unchanged by the resolver, whatever the host's file system and
  uri mapping.
\<close>

theorem convertResourcePaths_absolute_unchanged:
  assumes "only_absolute_refs doc"
  shows "convertResourcePaths h doc = doc"
  by (simp add: convertResourcePaths_def absolute_refs_pass [OF assms])

theorem convertResourcePaths_absolute_unchanged_witness:
  "only_absolute_refs absoluteDoc \<and> convertResourcePaths demoHost absoluteDoc = absoluteDoc"
proof -
  have h: "only_absolute_refs absoluteDoc"
    by code_simp
  from convertResourcePaths_absolute_unchanged [OF h, of demoHost] h show ?thesis
    by simp
qed

section \<open>Stylesheet links\<close>

text \<open>
  Scenario C of the specification: one stylesheet link whose file is readable is
  replaced by a style element with the file's text.
\<close>

lemma single_css_link_inlined:
  "convertResourcePaths demoHost ''<link href=\"style.css\">''
     = ''<style>body{color:red}</style>''"
  by code_simp

text \<open>
  C5, at a failing input. The document has an icon link and, on the same line, a
  stylesheet link to \<open>style.css\<close>, which exists and is readable. The path group
  \<open>(.*?\.css)\<close> of the pattern may run over quotes and angle brackets, so the match that
  starts at the icon link ends at the stylesheet link and its path group is
  \<open>favicon.ico"><link rel="stylesheet" href="style.css\<close>. No such file exists, the
  callback keeps the match, and the search goes on behind it: the stylesheet link is
  never looked at on its own and the document is returned unchanged.
\<close>

theorem css_link_behind_other_link_not_inlined:
  "existsSync demoHost (join demoHost (documentDir demoHost) ''style.css'')
   \<and> readFileSync demoHost (join demoHost (documentDir demoHost) ''style.css'')
       = Some ''body{color:red}''
   \<and> convertResourcePaths demoHost twoLinksDoc = twoLinksDoc
   \<and> \<not> contains (convertResourcePaths demoHost twoLinksDoc) ''<style>''"
  by code_simp

lemma css_match_spans_both_links:
  "map_option (\<lambda>(n, caps). (n, group twoLinksDoc caps 1)) (exec cssLinkRegex twoLinksDoc)
     = Some (length twoLinksDoc, ''favicon.ico\"><link rel=\"stylesheet\" href=\"style.css'')"
  by code_simp

section \<open>Scripts\<close>

text \<open>
  C6, at a failing input. \<open>app.js\<close> exists and is readable. The pass for every \<open>src\<close>
  attribute runs before the script pass and turns \<open>src="app.js"\<close> into the webview uri;
  the script pass then finds no relative \<open>src\<close> to inline, and the file's text is not
  in the output.
\<close>

theorem relative_script_not_inlined:
  "existsSync demoHost (join demoHost (documentDir demoHost) ''app.js'')
   \<and> readFileSync demoHost (join demoHost (documentDir demoHost) ''app.js'') = Some ''run()''
   \<and> convertResourcePaths demoHost scriptDoc
       = ''<script src=\"https://file+.vscode-resource.vscode-cdn.net/w/app.js\"></script>''
   \<and> \<not> contains (convertResourcePaths demoHost scriptDoc) ''run()''"
  by code_simp

text \<open>The script pass on its own does inline the file.\<close>

lemma script_pass_alone_inlines:
  "replaceAll scriptRegex (inlineScript demoHost) scriptDoc = ''<script >run()</script></script>''"
  by code_simp

text \<open>Scenario D of the specification: an image source becomes the webview uri.\<close>

lemma image_src_rewritten:
  "convertResourcePaths demoHost ''<img src=\"pic.png\">''
     = ''<img src=\"https://file+.vscode-resource.vscode-cdn.net/w/pic.png\">''"
  by code_simp



end
